theory Spec2Isabelle
  imports Main
begin

section \<open>Data model of \<open>harness.js\<close>\<close>

text \<open>
  The harness manipulates three kinds of JavaScript values.

  \<^item> \<^emph>\<open>Outcome producers\<close> are function objects. Templates compare them with \<open>===\<close>, that
    is by reference, so an outcome producer is modelled by its reference, and the function
    objects themselves (their \<open>name\<close> property and what calling them does) sit in a heap
    indexed by reference.
  \<^item> The object returned by \<open>action(name, ...outcomes)\<close> has the property \<open>name\<close> and a
    method \<open>forEach\<close> closed over \<open>outcomes\<close>.
  \<^item> The objects \<open>{name, outcome}\<close> built by \<open>forEach\<close> are the elements of permutations
    and of recorded sequences.

  Calling an outcome producer, or the pattern under test, runs code the harness does not
  know. Such code is modelled as a transformer of an ambient world \<open>'w\<close> (everything the
  callables can read and write besides the harness's own variables) returning either a
  value \<open>'v\<close> (plain or deferred) or a thrown error.
\<close>

type_synonym outcome_ref = nat

datatype js_error = TypeError | Thrown nat

record ('v, 'w) fn_obj =
  fname :: string
  body :: "'w \<Rightarrow> (js_error + 'v) \<times> 'w"

type_synonym ('v, 'w) heap = "outcome_ref \<Rightarrow> ('v, 'w) fn_obj"

record named =
  name :: string

record action = named +
  outcomes :: "outcome_ref list"

record choice = named +
  outcome :: outcome_ref

text \<open>\<open>function action(name, ...outcomes)\<close>, lines 3 to 8.\<close>

definition action :: "string \<Rightarrow> outcome_ref list \<Rightarrow> action" where
  "action n os = \<lparr>name = n, outcomes = os\<rparr>"

text \<open>
  The method \<open>forEach\<close> of an action object: \<open>outcomes.forEach\<close> visits the outcomes in
  index order and hands \<open>{name, outcome}\<close> to the callback. The callback works on a state
  \<open>'s\<close>, which stands for the variables it closes over.
\<close>

definition forEach :: "action \<Rightarrow> (choice \<Rightarrow> 's \<Rightarrow> 's) \<Rightarrow> 's \<Rightarrow> 's" where
  "forEach a cb = fold (\<lambda>outcome. cb \<lparr>name = name a, outcome = outcome\<rparr>) (outcomes a)"

section \<open>Permutation generator\<close>

text \<open>\<open>function all_permutations(args, callback)\<close>, lines 77 to 89.\<close>

primrec all_permutations :: "action list \<Rightarrow> (choice list \<Rightarrow> 's \<Rightarrow> 's) \<Rightarrow> 's \<Rightarrow> 's" where
  "all_permutations [] callback = callback []"
| "all_permutations (permutations # rest) callback =
     forEach permutations (\<lambda>permutation.
       all_permutations rest (\<lambda>rest_permutation.
         callback (permutation # rest_permutation)))"

section \<open>Sequence validator\<close>

text \<open>
  An entry of a valid sequence is a JavaScript array whose element 0 is an action and whose
  further elements are outcome producers. The empty array is kept in the model because
  reading \<open>valid_action[0].name\<close> from it throws a \<open>TypeError\<close>.
\<close>

datatype valid_action = NoElements | Elements action "outcome_ref list"

fun va_length :: "valid_action \<Rightarrow> nat" where
  "va_length NoElements = 0"
| "va_length (Elements a os) = 1 + length os"

fun va_outcomes :: "valid_action \<Rightarrow> outcome_ref list" where
  "va_outcomes NoElements = []"
| "va_outcomes (Elements a os) = os"

text \<open>The loop of lines 130 to 135 over the elements at index 1 and above.\<close>

fun outcome_loop :: "outcome_ref list \<Rightarrow> choice \<Rightarrow> bool" where
  "outcome_loop [] action_taken = False"
| "outcome_loop (valid_outcome # rest) action_taken =
     (if valid_outcome = outcome action_taken then True else outcome_loop rest action_taken)"

text \<open>\<open>function action_fits_pattern(action_taken, valid_action)\<close>, lines 122 to 137.\<close>

definition action_fits_pattern :: "choice \<Rightarrow> valid_action \<Rightarrow> bool" where
  "action_fits_pattern action_taken valid_action =
     (if va_length valid_action = 1 then True
      else outcome_loop (va_outcomes valid_action) action_taken)"

text \<open>
  The loop of lines 106 to 117. It runs only when both arrays have the same length, so it
  walks the two arrays in step.
\<close>

fun fits_loop :: "(choice \<times> valid_action) list \<Rightarrow> js_error + bool" where
  "fits_loop [] = Inr True"
| "fits_loop ((action_taken, valid_action) # rest) =
     (case valid_action of
        NoElements \<Rightarrow> Inl TypeError
      | Elements a os \<Rightarrow>
          if name action_taken \<noteq> name a then Inr False
          else if \<not> action_fits_pattern action_taken valid_action then Inr False
          else fits_loop rest)"

text \<open>\<open>function sequence_fits_pattern(sequence, valid_sequence)\<close>, lines 101 to 120.\<close>

definition sequence_fits_pattern :: "choice list \<Rightarrow> valid_action list \<Rightarrow> js_error + bool" where
  "sequence_fits_pattern sequence valid_sequence =
     (if length sequence \<noteq> length valid_sequence then Inr False
      else fits_loop (zip sequence valid_sequence))"

text \<open>
  \<open>function is_valid_sequence(sequence, valid_sequences)\<close>, lines 91 to 99. The
  \<open>forEach\<close> does not stop at the first match, and an exception in one iteration leaves it.
\<close>

fun valid_loop :: "choice list \<Rightarrow> valid_action list list \<Rightarrow> bool \<Rightarrow> js_error + bool" where
  "valid_loop sequence [] is_valid = Inr is_valid"
| "valid_loop sequence (valid_sequence # rest) is_valid =
     (case sequence_fits_pattern sequence valid_sequence of
        Inl e \<Rightarrow> Inl e
      | Inr fits \<Rightarrow> valid_loop sequence rest (if fits then True else is_valid))"

definition is_valid_sequence :: "choice list \<Rightarrow> valid_action list list \<Rightarrow> js_error + bool" where
  "is_valid_sequence sequence valid_sequences = valid_loop sequence valid_sequences False"

section \<open>Text of a failure\<close>

text \<open>\<open>Array.prototype.join\<close> on an array of strings.\<close>

fun join :: "string \<Rightarrow> string list \<Rightarrow> string" where
  "join sep [] = []"
| "join sep [x] = x"
| "join sep (x # y # ys) = x @ sep @ join sep (y # ys)"

text \<open>\<open>function describe_permutation(permutation)\<close>, lines 139 to 141.\<close>

definition describe_permutation :: "('v, 'w) heap \<Rightarrow> choice list \<Rightarrow> string" where
  "describe_permutation heap permutation =
     join ''\<newline>            ''
       (map (\<lambda>p. name p @ '' -> '' @ fname (heap (outcome p))) permutation)"

text \<open>The string pushed onto \<open>failures\<close> in lines 48 to 51.\<close>

definition failure_message :: "('v, 'w) heap \<Rightarrow> choice list \<Rightarrow> choice list \<Rightarrow> string" where
  "failure_message heap permutation sequence =
     ''Pattern failed validation\<newline>'' @
     ''  Scenario: '' @ describe_permutation heap permutation @ ''\<newline>'' @
     ''  Sequence: '' @ join '', '' (map name sequence)"

section \<open>Promises\<close>

text \<open>
  A promise is modelled by what it settles to: run from the state in which the job queue
  starts, it yields a fulfilment value (\<open>Inr\<close>) or a rejection reason (\<open>Inl\<close>) and the state
  its callbacks leave behind. Callbacks given to \<open>then\<close> never run in the synchronous code
  that registers them; they run later, in registration order.
\<close>

type_synonym ('a, 's) promise = "'s \<Rightarrow> (js_error + 'a) \<times> 's"

definition Promise_resolve :: "'a \<Rightarrow> ('a, 's) promise" where
  "Promise_resolve v = (\<lambda>s. (Inr v, s))"

text \<open>\<open>p.then(f)\<close> for a function \<open>f\<close>; a throw inside \<open>f\<close> rejects the new promise.\<close>

definition promise_then :: "('a, 's) promise \<Rightarrow> ('a \<Rightarrow> 's \<Rightarrow> (js_error + 'b) \<times> 's) \<Rightarrow> ('b, 's) promise" where
  "promise_then p f = (\<lambda>s. case p s of (Inl e, s') \<Rightarrow> (Inl e, s') | (Inr x, s') \<Rightarrow> f x s')"

text \<open>
  \<open>p.then(x)\<close> for an \<open>x\<close> that is not a function: the argument is ignored and the new
  promise settles as \<open>p\<close> does.
\<close>

definition promise_then_non_function :: "('a, 's) promise \<Rightarrow> 'x \<Rightarrow> ('a, 's) promise" where
  "promise_then_non_function p x = p"

text \<open>\<open>p.catch(h)\<close>.\<close>

definition promise_catch :: "('a, 's) promise \<Rightarrow> (js_error \<Rightarrow> 's \<Rightarrow> (js_error + 'a) \<times> 's) \<Rightarrow> ('a, 's) promise" where
  "promise_catch p h = (\<lambda>s. case p s of (Inl e, s') \<Rightarrow> h e s' | (Inr x, s') \<Rightarrow> (Inr x, s'))"

text \<open>
  \<open>function wait_for(result)\<close>, lines 68 to 75: a new promise, fulfilled with whatever
  \<open>result\<close> settles to. It is a promise object, not a function. The model has no pending
  promises and takes \<open>result\<close> for what it settles to; line 45 passes this promise to
  \<open>then\<close> where a function is expected, so nothing ever reads it.
\<close>

definition wait_for :: "'r \<Rightarrow> ('r, 's) promise" where
  "wait_for result = (\<lambda>s. (Inr result, s))"

section \<open>The pattern under test\<close>

text \<open>
  What one call \<open>pattern_to_test.apply(null, args)\<close> does, as a tree. \<open>Call i w k\<close>: the
  pattern leaves the world as \<open>w\<close> and calls its \<open>i\<close>-th argument; \<open>k\<close> continues with what
  that call produced (a returned value or a caught exception) and the world after it.
  \<open>Return v w late\<close> and \<open>Throw e w late\<close> end the synchronous call. Work that the pattern
  has left to callbacks of its own runs after the synchronous code of the harness; \<open>late\<close>
  lists the indices of the arguments such work calls before the harness reads the
  scenario's \<open>sequence\<close>. A pattern is given as a function of the world in which it is called,
  so that it may behave differently from one call to the next. Every branch of a tree is
  finite: a pattern whose synchronous call never returns is outside the model (the harness
  does not return either in that case).
\<close>

datatype ('v, 'w) pattern =
    Return 'v 'w "nat list"
  | Throw js_error 'w "nat list"
  | Call nat 'w "(js_error + 'v) \<Rightarrow> 'w \<Rightarrow> ('v, 'w) pattern"

text \<open>
  The tracked callable of lines 32 to 35 for one element of the permutation. Its state is
  the scenario's \<open>sequence\<close> and the world.
\<close>

type_synonym ('v, 'w) callable = "choice list \<times> 'w \<Rightarrow> (js_error + 'v) \<times> choice list \<times> 'w"

definition tracked :: "('v, 'w) heap \<Rightarrow> choice \<Rightarrow> ('v, 'w) callable" where
  "tracked heap action' = (\<lambda>(sequence, w).
     let sequence = sequence @ [action'];
         (r, w) = body (heap (outcome action')) w
     in (r, sequence, w))"

text \<open>
  Running the pattern on \<open>args\<close>. Calling an argument that was not supplied calls
  \<open>undefined\<close>, which throws a \<open>TypeError\<close> inside the pattern.
\<close>

primrec apply_pattern ::
  "('v, 'w) pattern \<Rightarrow> ('v, 'w) callable list \<Rightarrow> choice list
     \<Rightarrow> (js_error + 'v) \<times> choice list \<times> 'w \<times> nat list" where
  "apply_pattern (Return v w late) args sequence = (Inr v, sequence, w, late)"
| "apply_pattern (Throw e w late) args sequence = (Inl e, sequence, w, late)"
| "apply_pattern (Call i w k) args sequence =
     (if i < length args
      then (case (args ! i) (sequence, w) of
              (r, sequence', w') \<Rightarrow> apply_pattern (k r w') args sequence')
      else apply_pattern (k (Inl TypeError) w) args sequence)"

text \<open>
  The pushes made by the late calls; the index of an argument not supplied pushes nothing.
  A late call also runs its outcome producer. What that produces goes to the pattern's own
  callback, and what it does to the world happens after every synchronous invocation of
  the pattern; neither reaches a variable of the harness, and neither is modelled: the
  field \<open>world\<close> of the engine is the world after the synchronous invocations.
\<close>

definition late_calls :: "choice list \<Rightarrow> nat list \<Rightarrow> choice list \<Rightarrow> choice list" where
  "late_calls permutation late sequence =
     fold (\<lambda>i sq. if i < length permutation then sq @ [permutation ! i] else sq) late sequence"

section \<open>\<open>test_correctness\<close>\<close>

text \<open>
  The variables of one call of \<open>test_correctness\<close>: \<open>failures\<close>, what was written to the
  console, and the world of the callables. \<open>trace\<close> is not in the source: it logs when the
  pattern is invoked for a permutation and when the validation callback of a permutation
  starts, so that the order of the two can be stated.
\<close>

datatype event = Invoked "choice list" | Validated "choice list"

record 'w engine =
  failures :: "string list"
  console :: "js_error list"
  world :: 'w
  trace :: "event list"

text \<open>What the promise returned by \<open>test_correctness\<close> is fulfilled with.\<close>

datatype js_result = Verdict bool "string option" | ErrorValue js_error

text \<open>The callback of lines 46 to 53, run when the chain reaches it.\<close>

definition validate ::
  "('v, 'w) heap \<Rightarrow> valid_action list list \<Rightarrow> choice list \<Rightarrow> choice list
     \<Rightarrow> unit \<Rightarrow> 'w engine \<Rightarrow> (js_error + unit) \<times> 'w engine" where
  "validate heap valid_sequences permutation sequence = (\<lambda>_ st.
     let st = st\<lparr>trace := trace st @ [Validated permutation]\<rparr>
     in case is_valid_sequence sequence valid_sequences of
          Inl e \<Rightarrow> (Inl e, st)
        | Inr valid \<Rightarrow>
            if \<not> valid
            then (Inr (), st\<lparr>failures := failures st @ [failure_message heap permutation sequence]\<rparr>)
            else (Inr (), st))"

text \<open>
  The callback handed to \<open>all_permutations\<close>, lines 22 to 54. Its state is the variable
  \<open>outcome\<close> and the engine. The validation callback holds a reference to \<open>sequence\<close>, so
  it sees the late pushes as well.
\<close>

definition scenario ::
  "('v, 'w) heap \<Rightarrow> valid_action list list \<Rightarrow> ('w \<Rightarrow> ('v, 'w) pattern) \<Rightarrow> choice list
     \<Rightarrow> (unit, 'w engine) promise \<times> 'w engine \<Rightarrow> (unit, 'w engine) promise \<times> 'w engine" where
  "scenario heap valid_sequences pattern_to_test permutation = (\<lambda>(outcome, st).
     let sequence = [];
         args = map (tracked heap) permutation;
         (r, sequence, w, late) = apply_pattern (pattern_to_test (world st)) args sequence;
         result = (case r of Inr v \<Rightarrow> Some v | Inl e \<Rightarrow> None);
         st = st\<lparr>world := w, trace := trace st @ [Invoked permutation]\<rparr>;
         outcome = promise_then
                     (promise_then_non_function outcome
                        (wait_for result :: ('v option, 'w engine) promise))
                     (validate heap valid_sequences permutation
                        (late_calls permutation late sequence))
     in (outcome, st))"

text \<open>
  \<open>function test_correctness(actions, valid_sequences, pattern_to_test)\<close>, lines 16 to
  66, called in world \<open>w\<close>: the settlement of the promise it returns and the final engine.
\<close>

definition test_correctness ::
  "('v, 'w) heap \<Rightarrow> action list \<Rightarrow> valid_action list list \<Rightarrow> ('w \<Rightarrow> ('v, 'w) pattern) \<Rightarrow> 'w
     \<Rightarrow> (js_error + js_result) \<times> 'w engine" where
  "test_correctness heap actions valid_sequences pattern_to_test w =
     (let outcome = Promise_resolve ();
          st = \<lparr>failures = [], console = [], world = w, trace = []\<rparr>;
          (outcome, st) =
             all_permutations actions (scenario heap valid_sequences pattern_to_test) (outcome, st)
      in promise_catch
           (promise_then outcome (\<lambda>_ st.
              if length (failures st) > 0
              then (Inr (Verdict False (Some (join ''\<newline>'' (failures st)))), st)
              else (Inr (Verdict True None), st)))
           (\<lambda>e st. (Inr (ErrorValue e), st\<lparr>console := console st @ [e]\<rparr>))
           st)"

section \<open>Runs of the harness, as lists\<close>

text \<open>
  The definitions of this section restate, in direct style, what the callbacks and the
  promise chain of \<open>test_correctness\<close> compute. The lemmas below prove that they agree
  with the functions translated from the source, and the theorems are stated with them.

  \<open>visited\<close> collects the permutations in the order in which \<open>all_permutations\<close> hands
  them to its callback.
\<close>

definition visited :: "action list \<Rightarrow> choice list list" where
  "visited actions = all_permutations actions (\<lambda>permutation acc. acc @ [permutation]) []"

text \<open>
  The choices \<open>{name, outcome}\<close> of one action, and the Cartesian product of the choices
  of a list of actions as the library function \<open>product_lists\<close> enumerates it.
\<close>

definition choices :: "action \<Rightarrow> choice list" where
  "choices a = map (\<lambda>outcome. \<lparr>name = name a, outcome = outcome\<rparr>) (outcomes a)"

definition permutations_of :: "action list \<Rightarrow> choice list list" where
  "permutations_of actions = product_lists (map choices actions)"

text \<open>
  One synchronous call of the pattern for a permutation, from a fresh \<open>sequence\<close>:
  \<open>invoke\<close> is lines 28 to 41. \<open>observed\<close> is the content of \<open>sequence\<close> when the
  validation callback reads it, and \<open>world_after\<close> the world the call leaves behind.
\<close>

definition invoke ::
  "('v, 'w) heap \<Rightarrow> ('w \<Rightarrow> ('v, 'w) pattern) \<Rightarrow> choice list \<Rightarrow> 'w
     \<Rightarrow> (js_error + 'v) \<times> choice list \<times> 'w \<times> nat list" where
  "invoke heap pattern_to_test permutation w =
     apply_pattern (pattern_to_test w) (map (tracked heap) permutation) []"

definition observed ::
  "('v, 'w) heap \<Rightarrow> ('w \<Rightarrow> ('v, 'w) pattern) \<Rightarrow> choice list \<Rightarrow> 'w \<Rightarrow> choice list" where
  "observed heap pattern_to_test permutation w =
     (case invoke heap pattern_to_test permutation w of
        (r, sequence, w', late) \<Rightarrow> late_calls permutation late sequence)"

definition world_after ::
  "('v, 'w) heap \<Rightarrow> ('w \<Rightarrow> ('v, 'w) pattern) \<Rightarrow> choice list \<Rightarrow> 'w \<Rightarrow> 'w" where
  "world_after heap pattern_to_test permutation w =
     (case invoke heap pattern_to_test permutation w of (r, sequence, w', late) \<Rightarrow> w')"

text \<open>
  The scenarios of a run: every permutation with the sequence observed for it. The pattern
  is called for one permutation after the other, each call in the world left by the one
  before.
\<close>

fun recorded ::
  "('v, 'w) heap \<Rightarrow> ('w \<Rightarrow> ('v, 'w) pattern) \<Rightarrow> choice list list \<Rightarrow> 'w
     \<Rightarrow> (choice list \<times> choice list) list" where
  "recorded heap pattern_to_test [] w = []"
| "recorded heap pattern_to_test (permutation # rest) w =
     (permutation, observed heap pattern_to_test permutation w)
       # recorded heap pattern_to_test rest (world_after heap pattern_to_test permutation w)"

fun final_world ::
  "('v, 'w) heap \<Rightarrow> ('w \<Rightarrow> ('v, 'w) pattern) \<Rightarrow> choice list list \<Rightarrow> 'w \<Rightarrow> 'w" where
  "final_world heap pattern_to_test [] w = w"
| "final_world heap pattern_to_test (permutation # rest) w =
     final_world heap pattern_to_test rest (world_after heap pattern_to_test permutation w)"

text \<open>
  The validation callbacks run one after the other; the first that throws ends the run.
  \<open>first_fault\<close> is the error of that callback, if any. \<open>rejected\<close> holds for a scenario
  whose sequence \<open>is_valid_sequence\<close> judges invalid, and \<open>failures_of\<close> are the messages
  of the rejected scenarios, in order.
\<close>

fun run_validations ::
  "('v, 'w) heap \<Rightarrow> valid_action list list \<Rightarrow> (choice list \<times> choice list) list
     \<Rightarrow> 'w engine \<Rightarrow> (js_error + unit) \<times> 'w engine" where
  "run_validations heap valid_sequences [] st = (Inr (), st)"
| "run_validations heap valid_sequences ((permutation, sequence) # rest) st =
     (case validate heap valid_sequences permutation sequence () st of
        (Inl e, st') \<Rightarrow> (Inl e, st')
      | (Inr u, st') \<Rightarrow> run_validations heap valid_sequences rest st')"

fun first_fault :: "valid_action list list \<Rightarrow> (choice list \<times> choice list) list \<Rightarrow> js_error option" where
  "first_fault valid_sequences [] = None"
| "first_fault valid_sequences ((permutation, sequence) # rest) =
     (case is_valid_sequence sequence valid_sequences of
        Inl e \<Rightarrow> Some e
      | Inr valid \<Rightarrow> first_fault valid_sequences rest)"

definition rejected :: "valid_action list list \<Rightarrow> choice list \<times> choice list \<Rightarrow> bool" where
  "rejected valid_sequences rec = (is_valid_sequence (snd rec) valid_sequences = Inr False)"

definition failures_of ::
  "('v, 'w) heap \<Rightarrow> valid_action list list \<Rightarrow> (choice list \<times> choice list) list \<Rightarrow> string list" where
  "failures_of heap valid_sequences recs =
     map (\<lambda>(permutation, sequence). failure_message heap permutation sequence)
       (filter (rejected valid_sequences) recs)"

text \<open>
  The value of the variable \<open>outcome\<close> after the validation callbacks of the given
  scenarios have been chained to it.
\<close>

definition chain ::
  "('v, 'w) heap \<Rightarrow> valid_action list list \<Rightarrow> (choice list \<times> choice list) list
     \<Rightarrow> (unit, 'w engine) promise \<Rightarrow> (unit, 'w engine) promise" where
  "chain heap vs recs oc = fold (\<lambda>(perm, sq) oc. promise_then oc (validate heap vs perm sq)) recs oc"

section \<open>Notions of the specification\<close>

text \<open>
  A list of valid sequences is well formed when no entry is the empty array, that is when
  every entry is \<open>[Action]\<close> or \<open>[Action, outcome, \<dots>]\<close>.
\<close>

definition well_formed :: "valid_action list list \<Rightarrow> bool" where
  "well_formed valid_sequences = list_all (list_all (\<lambda>va. va \<noteq> NoElements)) valid_sequences"

text \<open>
  Structural match in the words of the specification: equal lengths and, at every
  position, equal action names and either no outcome constraint or the recorded outcome
  among the allowed ones.
\<close>

definition entry_matches :: "choice \<Rightarrow> valid_action \<Rightarrow> bool" where
  "entry_matches record entry =
     (case entry of
        NoElements \<Rightarrow> False
      | Elements a os \<Rightarrow> name record = name a \<and> (os = [] \<or> outcome record \<in> set os))"

definition matches :: "choice list \<Rightarrow> valid_action list \<Rightarrow> bool" where
  "matches S T =
     (length S = length T \<and> list_all (\<lambda>i. entry_matches (S ! i) (T ! i)) [0..<length S])"





text \<open>
  The order of events the specification asks for: every scenario is invoked and validated
  before the next one is invoked.
\<close>

fun one_scenario_at_a_time :: "event list \<Rightarrow> bool" where
  "one_scenario_at_a_time [] = True"
| "one_scenario_at_a_time (Invoked p # Validated q # rest) = (p = q \<and> one_scenario_at_a_time rest)"
| "one_scenario_at_a_time (e # rest) = False"

section \<open>Example inputs\<close>

text \<open>
  Action \<open>A\<close> with the outcomes \<open>ok\<close> (reference 0, returns) and \<open>fail\<close> (reference 1,
  throws), action \<open>B\<close> with the outcome \<open>ok\<close>, and action \<open>Z\<close> without outcomes. The
  example pattern counts its invocations in the world, calls \<open>A\<close> and, unless that threw,
  calls \<open>B\<close>; it rethrows what \<open>A\<close> threw. The asynchronous example pattern calls
  \<open>A\<close> and returns what \<open>A\<close> returned, having left the call of \<open>B\<close> to a callback
  that runs before the scenario is validated.
\<close>

definition exA :: action where "exA = action ''A'' [0, 1]"

definition exB :: action where "exB = action ''B'' [0]"

definition exZ :: action where "exZ = action ''Z'' []"

definition ex_heap :: "(nat, nat) heap" where
  "ex_heap r = (if r = 1 then \<lparr>fname = ''fail'', body = (\<lambda>w. (Inl (Thrown 0), w))\<rparr>
                else \<lparr>fname = ''ok'', body = (\<lambda>w. (Inr 0, w))\<rparr>)"

definition ex_pattern :: "nat \<Rightarrow> (nat, nat) pattern" where
  "ex_pattern = (\<lambda>w. Call 0 (Suc w) (\<lambda>r w'.
     case r of Inl e \<Rightarrow> Throw e w' []
             | Inr v \<Rightarrow> Call 1 w' (\<lambda>r w''. Return 0 w'' [])))"

definition ex_async_pattern :: "nat \<Rightarrow> (nat, nat) pattern" where
  "ex_async_pattern = (\<lambda>w. Call 0 w (\<lambda>r w'.
     case r of Inl e \<Rightarrow> Throw e w' []
             | Inr v \<Rightarrow> Return v w' [1]))"



definition ex_templates :: "valid_action list list" where
  "ex_templates = [[Elements exA [0], Elements exB []]]"

definition ex_templates_ok :: "valid_action list list" where
  "ex_templates_ok = [[Elements exA [0], Elements exB []], [Elements exA [1]]]"

definition ex_templates_bad :: "valid_action list list" where
  "ex_templates_bad = [[NoElements, Elements exB []]]"

section \<open>Lemmas\<close>

subsection \<open>The permutation generator\<close>

lemma fold_concat_blocks: "fold f (concat xss) = fold (fold f) xss"
  by (induction xss) simp_all

lemma forEach_fold: "forEach a cb = fold cb (choices a)"
  by (simp add: forEach_def choices_def fold_map comp_def)

lemma all_permutations_fold:
  "all_permutations actions callback = fold callback (permutations_of actions)"
  unfolding permutations_of_def
proof (induction actions arbitrary: callback)
  case Nil
  show ?case by simp
next
  case (Cons a rest)
  have "all_permutations (a # rest) callback
        = fold (\<lambda>c. fold (\<lambda>rp. callback (c # rp)) (product_lists (map choices rest))) (choices a)"
    by (simp add: forEach_fold Cons.IH)
  also have "\<dots> = fold (\<lambda>c. fold callback (map ((#) c) (product_lists (map choices rest)))) (choices a)"
    by (simp add: fold_map comp_def)
  also have "\<dots> = fold callback (product_lists (map choices (a # rest)))"
    by (simp add: fold_concat_blocks fold_map comp_def)
  finally show ?case .
qed

lemma fold_snoc_collect: "fold (\<lambda>p acc. acc @ [p]) xs ys = ys @ xs"
  by (induction xs arbitrary: ys) simp_all

lemma visited_eq: "visited actions = permutations_of actions"
  by (simp add: visited_def all_permutations_fold fold_snoc_collect)

lemma length_product_lists_prod:
  "length (product_lists xss) = prod_list (map length xss)"
  by (induction xss) (simp_all add: length_concat comp_def sum_list_triv)

lemma concat_blocks_nth:
  assumes "\<And>x. x \<in> set xs \<Longrightarrow> length (f x) = m" and "k < length xs * m"
  shows "concat (map f xs) ! k = f (xs ! (k div m)) ! (k mod m)"
  using assms
proof (induction xs arbitrary: k)
  case Nil
  then show ?case by simp
next
  case (Cons x xs)
  have m: "0 < m" using Cons.prems(2) by (cases m) simp_all
  show ?case
  proof (cases "k < m")
    case True
    then show ?thesis using Cons.prems(1) by (simp add: nth_append)
  next
    case False
    then have km: "m \<le> k" by simp
    have "k - m < length xs * m" using Cons.prems(2) km by simp
    then have "concat (map f xs) ! (k - m) = f (xs ! ((k - m) div m)) ! ((k - m) mod m)"
      using Cons.IH Cons.prems(1) by simp
    moreover have "(k - m) div m = k div m - 1" using km m by (simp add: le_div_geq)
    moreover have "(k - m) mod m = k mod m" using km by (simp add: le_mod_geq)
    moreover have "0 < k div m" using km m by (simp add: div_greater_zero_iff)
    ultimately show ?thesis using False Cons.prems(1) by (simp add: nth_append nth_Cons')
  qed
qed

lemma mixed_radix_step:
  fixes k p c q :: nat
  assumes "0 < p"
  shows "((k mod (p * (c * q))) div p) mod c = (k div p) mod c"
proof -
  have "k mod (p * (c * q)) = p * (k div p mod (c * q)) + k mod p"
    by (rule mod_mult2_eq)
  then have "(k mod (p * (c * q))) div p = k div p mod (c * q)"
    using assms by simp
  then show ?thesis by (simp add: mod_mod_cancel)
qed

lemma product_lists_nth:
  "k < length (product_lists xss) \<Longrightarrow> i < length xss \<Longrightarrow>
   product_lists xss ! k ! i =
     (xss ! i) ! ((k div prod_list (map length (drop (Suc i) xss))) mod length (xss ! i))"
proof (induction xss arbitrary: k i)
  case Nil
  then show ?case by simp
next
  case (Cons xs xss)
  let ?m = "length (product_lists xss)"
  have m_eq: "?m = prod_list (map length xss)" by (rule length_product_lists_prod)
  have k: "k < length xs * ?m"
    using Cons.prems(1) by (simp add: length_concat comp_def sum_list_triv)
  then have m: "0 < ?m" by (cases ?m) simp_all
  have blk: "product_lists (xs # xss) ! k = (xs ! (k div ?m)) # (product_lists xss ! (k mod ?m))"
  proof -
    have "concat (map (\<lambda>x. map ((#) x) (product_lists xss)) xs) ! k
          = (\<lambda>x. map ((#) x) (product_lists xss)) (xs ! (k div ?m)) ! (k mod ?m)"
      by (rule concat_blocks_nth) (use k in simp_all)
    then show ?thesis using m by simp
  qed
  show ?case
  proof (cases i)
    case 0
    have "k div ?m < length xs" using k m by (simp add: less_mult_imp_div_less)
    then show ?thesis using 0 blk m_eq by simp
  next
    case (Suc j)
    then have j: "j < length xss" using Cons.prems(2) by simp
    let ?p = "prod_list (map length (drop (Suc j) xss))"
    let ?c = "length (xss ! j)"
    have kmod: "k mod ?m < ?m" using m by simp
    have ih: "product_lists xss ! (k mod ?m) ! j = (xss ! j) ! (((k mod ?m) div ?p) mod ?c)"
      using Cons.IH[OF kmod j] .
    have split: "xss = take j xss @ (xss ! j) # drop (Suc j) xss"
      using j by (simp add: id_take_nth_drop)
    have "?m = prod_list (map length (take j xss)) * (?c * ?p)"
      by (subst m_eq, subst split) simp
    then have q: "?m = ?p * (?c * prod_list (map length (take j xss)))"
      by (simp add: mult.commute mult.left_commute)
    have p: "0 < ?p" using m q by (cases ?p) simp_all
    have "((k mod ?m) div ?p) mod ?c = (k div ?p) mod ?c"
      by (subst q) (rule mixed_radix_step[OF p])
    then show ?thesis using Suc blk ih by simp
  qed
qed

lemma permutations_of_names:
  "p \<in> set (permutations_of actions) \<Longrightarrow> map name p = map name actions"
  unfolding permutations_of_def
  by (induction actions arbitrary: p) (auto simp: choices_def)

lemma visited_empty:
  assumes "\<exists>a \<in> set actions. outcomes a = []"
  shows "visited actions = []"
proof -
  from assms have "0 \<in> set (map (\<lambda>a. length (outcomes a)) actions)" by force
  then have "prod_list (map (\<lambda>a. length (outcomes a)) actions) = 0"
    by (simp only: prod_list_zero_iff)
  then have "length (visited actions) = 0"
    by (simp add: visited_eq permutations_of_def length_product_lists_prod comp_def choices_def)
  then show ?thesis by simp
qed

lemma visited_nonempty:
  assumes "\<forall>a \<in> set actions. outcomes a \<noteq> []"
  shows "visited actions \<noteq> []"
proof -
  from assms have "0 \<notin> set (map (\<lambda>a. length (outcomes a)) actions)" by auto
  then have "prod_list (map (\<lambda>a. length (outcomes a)) actions) \<noteq> 0"
    by (simp only: prod_list_zero_iff) simp
  then have "length (visited actions) \<noteq> 0"
    by (simp add: visited_eq permutations_of_def length_product_lists_prod comp_def choices_def)
  then show ?thesis by simp
qed

subsection \<open>The validator\<close>

lemma outcome_loop_set: "outcome_loop os t = (outcome t \<in> set os)"
  by (induction os) auto

lemma action_fits_pattern_entry:
  "action_fits_pattern t (Elements a os) = (va_length (Elements a os) = 1 \<or> outcome t \<in> set os)"
  by (simp add: action_fits_pattern_def outcome_loop_set)

lemma entry_matches_Elements:
  "entry_matches t (Elements a os) = (name t = name a \<and> (os = [] \<or> outcome t \<in> set os))"
  by (simp add: entry_matches_def)

lemma entry_matches_iff:
  "entry_matches t va =
     (\<exists>a os. va = Elements a os \<and> name t = name a \<and> (va_length va = 1 \<or> outcome t \<in> set os))"
  by (cases va) (simp_all add: entry_matches_def)

lemma fits_loop_matches:
  "length S = length T \<Longrightarrow> list_all (\<lambda>va. va \<noteq> NoElements) T \<Longrightarrow>
   fits_loop (zip S T) = Inr (list_all2 entry_matches S T)"
proof (induction S T rule: list_induct2)
  case Nil
  show ?case by simp
next
  case (Cons t S va T)
  from Cons.prems obtain a os where va: "va = Elements a os" by (cases va) simp_all
  from Cons.prems have "list_all (\<lambda>va. va \<noteq> NoElements) T" by simp
  then have ih: "fits_loop (zip S T) = Inr (list_all2 entry_matches S T)" by (rule Cons.IH)
  show ?case
    unfolding va by (simp add: ih action_fits_pattern_entry entry_matches_Elements)
qed

lemma matches_list_all2: "matches S T = list_all2 entry_matches S T"
  by (auto simp: matches_def list_all2_conv_all_nth list_all_iff)

lemma sequence_fits_pattern_matches:
  "list_all (\<lambda>va. va \<noteq> NoElements) T \<Longrightarrow> sequence_fits_pattern S T = Inr (matches S T)"
  by (auto simp: sequence_fits_pattern_def fits_loop_matches matches_list_all2 dest: list_all2_lengthD)

lemma valid_loop_matches:
  "well_formed Ts \<Longrightarrow> valid_loop S Ts v = Inr (v \<or> (\<exists>T \<in> set Ts. matches S T))"
  by (induction Ts arbitrary: v) (auto simp: well_formed_def sequence_fits_pattern_matches)

lemma first_fault_no_templates: "first_fault [] recs = None"
  by (induction recs) (auto simp: is_valid_sequence_def)

lemma rejected_no_templates: "rejected [] rec"
  by (simp add: rejected_def is_valid_sequence_def)

lemma failures_of_eq:
  "failures_of heap vs recs =
     map (\<lambda>(permutation, sequence).
            ''Pattern failed validation\<newline>  Scenario: '' @
            join ''\<newline>            ''
              (map (\<lambda>p. name p @ '' -> '' @ fname (heap (outcome p))) permutation) @
            ''\<newline>  Sequence: '' @ join '', '' (map name sequence))
       (filter (\<lambda>(permutation, sequence). is_valid_sequence sequence vs = Inr False) recs)"
proof -
  have "rejected vs = (\<lambda>(permutation, sequence). is_valid_sequence sequence vs = Inr False)"
    by (auto simp: rejected_def fun_eq_iff)
  then show ?thesis
    by (simp add: failures_of_def failure_message_def describe_permutation_def)
qed

subsection \<open>Tracked callables and the pattern\<close>






subsection \<open>The promise chain\<close>

lemma scenario_eq:
  "scenario heap vs p perm (oc, st) =
     (promise_then oc (validate heap vs perm (observed heap p perm (world st))),
      st\<lparr>world := world_after heap p perm (world st), trace := trace st @ [Invoked perm]\<rparr>)"
  by (simp add: scenario_def observed_def world_after_def invoke_def promise_then_non_function_def
      split: prod.splits)


lemma fold_scenario:
  "fold (scenario heap vs p) perms (oc, st) =
     (chain heap vs (recorded heap p perms (world st)) oc,
      st\<lparr>world := final_world heap p perms (world st), trace := trace st @ map Invoked perms\<rparr>)"
proof (induction perms arbitrary: oc st)
  case Nil
  show ?case by (simp add: chain_def)
next
  case (Cons perm perms)
  show ?case
    by (simp add: scenario_eq Cons.IH chain_def)
qed

lemma promise_then_assoc:
  "promise_then (promise_then p f) g = promise_then p (\<lambda>x. promise_then (f x) g)"
  by (rule ext) (simp add: promise_then_def split: prod.splits sum.splits)

lemma chain_run:
  "chain heap vs recs oc = promise_then oc (\<lambda>u. run_validations heap vs recs)"
proof (induction recs arbitrary: oc)
  case Nil
  show ?case
    by (rule ext) (simp add: chain_def promise_then_def split: prod.splits sum.splits)
next
  case (Cons rec recs)
  obtain perm sq where rec: "rec = (perm, sq)" by (cases rec)
  have "chain heap vs (rec # recs) oc = chain heap vs recs (promise_then oc (validate heap vs perm sq))"
    by (simp add: chain_def rec)
  also have "\<dots> = promise_then (promise_then oc (validate heap vs perm sq)) (\<lambda>u. run_validations heap vs recs)"
    by (rule Cons.IH)
  also have "\<dots> = promise_then oc (\<lambda>u. run_validations heap vs (rec # recs))"
    unfolding promise_then_assoc rec
    by (rule arg_cong[where f = "promise_then oc"]) (auto simp: promise_then_def fun_eq_iff split: prod.splits sum.splits)
  finally show ?case .
qed

lemma run_validations_no_fault:
  "first_fault vs recs = None \<Longrightarrow>
   run_validations heap vs recs st =
     (Inr (), st\<lparr>failures := failures st @ failures_of heap vs recs,
                 trace := trace st @ map (\<lambda>rec. Validated (fst rec)) recs\<rparr>)"
proof (induction recs arbitrary: st)
  case Nil
  show ?case by (simp add: failures_of_def)
next
  case (Cons rec recs)
  obtain perm sq where rec: "rec = (perm, sq)" by (cases rec)
  from Cons.prems obtain b where b: "is_valid_sequence sq vs = Inr b"
    and rest: "first_fault vs recs = None"
    by (auto simp: rec split: sum.splits)
  show ?case
    by (cases b) (simp_all add: rec b validate_def Let_def Cons.IH[OF rest] failures_of_def rejected_def)
qed

lemma run_validations_fault:
  "first_fault vs recs = Some e \<Longrightarrow>
   \<exists>n < length recs.
     run_validations heap vs recs st =
       (Inl e, st\<lparr>failures := failures st @ failures_of heap vs (take n recs),
                  trace := trace st @ map (\<lambda>rec. Validated (fst rec)) (take (Suc n) recs)\<rparr>)"
proof (induction recs arbitrary: st)
  case Nil
  then show ?case by simp
next
  case (Cons rec recs)
  obtain perm sq where rec: "rec = (perm, sq)" by (cases rec)
  show ?case
  proof (cases "is_valid_sequence sq vs")
    case (Inl e')
    with Cons.prems have "e' = e" by (simp add: rec)
    with Inl have "run_validations heap vs (rec # recs) st =
       (Inl e, st\<lparr>failures := failures st @ failures_of heap vs (take 0 (rec # recs)),
                  trace := trace st @ map (\<lambda>rec. Validated (fst rec)) (take (Suc 0) (rec # recs))\<rparr>)"
      by (simp add: rec validate_def Let_def failures_of_def)
    then show ?thesis by blast
  next
    case (Inr b)
    with Cons.prems have rest: "first_fault vs recs = Some e" by (simp add: rec)
    let ?st = "snd (validate heap vs perm sq () st)"
    from Cons.IH[OF rest, of ?st] obtain n where n: "n < length recs"
      and run: "run_validations heap vs recs ?st =
       (Inl e, ?st\<lparr>failures := failures ?st @ failures_of heap vs (take n recs),
                  trace := trace ?st @ map (\<lambda>rec. Validated (fst rec)) (take (Suc n) recs)\<rparr>)"
      by blast
    have "run_validations heap vs (rec # recs) st =
       (Inl e, st\<lparr>failures := failures st @ failures_of heap vs (take (Suc n) (rec # recs)),
                  trace := trace st @ map (\<lambda>rec. Validated (fst rec)) (take (Suc (Suc n)) (rec # recs))\<rparr>)"
      using run Inr
      by (cases b) (simp_all add: rec validate_def Let_def failures_of_def rejected_def)
    moreover have "Suc n < length (rec # recs)" using n by simp
    ultimately show ?thesis by blast
  qed
qed

lemma map_fst_recorded: "map fst (recorded heap p perms w) = perms"
  by (induction perms arbitrary: w) simp_all

lemma length_recorded: "length (recorded heap p perms w) = length perms"
  by (induction perms arbitrary: w) simp_all




subsection \<open>\<open>test_correctness\<close> in direct style\<close>

lemma test_correctness_run:
  "test_correctness heap actions vs p w =
     (case run_validations heap vs (recorded heap p (permutations_of actions) w)
             \<lparr>failures = [], console = [], world = final_world heap p (permutations_of actions) w,
              trace = map Invoked (permutations_of actions)\<rparr> of
        (Inl e, st) \<Rightarrow> (Inr (ErrorValue e), st\<lparr>console := console st @ [e]\<rparr>)
      | (Inr u, st) \<Rightarrow>
          (if failures st \<noteq> []
           then (Inr (Verdict False (Some (join ''\<newline>'' (failures st)))), st)
           else (Inr (Verdict True None), st)))"
  by (simp add: test_correctness_def all_permutations_fold fold_scenario chain_run
      promise_catch_def promise_then_def Promise_resolve_def split: prod.splits sum.splits)

lemma test_correctness_no_fault:
  assumes "first_fault vs (recorded heap p (permutations_of actions) w) = None"
  shows "test_correctness heap actions vs p w =
     (Inr (if failures_of heap vs (recorded heap p (permutations_of actions) w) = []
           then Verdict True None
           else Verdict False
                  (Some (join ''\<newline>'' (failures_of heap vs (recorded heap p (permutations_of actions) w))))),
      \<lparr>failures = failures_of heap vs (recorded heap p (permutations_of actions) w),
       console = [],
       world = final_world heap p (permutations_of actions) w,
       trace = map Invoked (permutations_of actions) @ map Validated (permutations_of actions)\<rparr>)"
proof -
  have "map (\<lambda>rec. Validated (fst rec)) (recorded heap p (permutations_of actions) w)
        = map Validated (map fst (recorded heap p (permutations_of actions) w))"
    by (simp add: comp_def)
  then have tr: "map (\<lambda>rec. Validated (fst rec)) (recorded heap p (permutations_of actions) w)
        = map Validated (permutations_of actions)"
    by (simp only: map_fst_recorded)
  show ?thesis
    unfolding test_correctness_run run_validations_no_fault[OF assms]
    by (simp add: tr)
qed

lemma test_correctness_fault:
  assumes "first_fault vs (recorded heap p (permutations_of actions) w) = Some e"
  shows "\<exists>n < length (permutations_of actions).
     test_correctness heap actions vs p w =
       (Inr (ErrorValue e),
        \<lparr>failures = failures_of heap vs (take n (recorded heap p (permutations_of actions) w)),
         console = [e],
         world = final_world heap p (permutations_of actions) w,
         trace = map Invoked (permutations_of actions)
                 @ map Validated (take (Suc n) (permutations_of actions))\<rparr>)"
proof -
  let ?perms = "permutations_of actions"
  let ?recs = "recorded heap p ?perms w"
  let ?st = "\<lparr>failures = [], console = [], world = final_world heap p ?perms w,
              trace = map Invoked ?perms\<rparr>"
  from run_validations_fault[OF assms, of heap ?st] obtain n where n: "n < length ?recs"
    and run: "run_validations heap vs ?recs ?st =
       (Inl e, ?st\<lparr>failures := failures ?st @ failures_of heap vs (take n ?recs),
                  trace := trace ?st @ map (\<lambda>rec. Validated (fst rec)) (take (Suc n) ?recs)\<rparr>)"
    by blast
  have "map (\<lambda>rec. Validated (fst rec)) (take (Suc n) ?recs)
        = map Validated (take (Suc n) (map fst ?recs))"
    by (simp add: take_map comp_def)
  then have tr: "map (\<lambda>rec. Validated (fst rec)) (take (Suc n) ?recs)
        = map Validated (take (Suc n) ?perms)"
    by (simp only: map_fst_recorded)
  have "test_correctness heap actions vs p w =
       (Inr (ErrorValue e),
        \<lparr>failures = failures_of heap vs (take n ?recs),
         console = [e],
         world = final_world heap p ?perms w,
         trace = map Invoked ?perms @ map Validated (take (Suc n) ?perms)\<rparr>)"
    unfolding test_correctness_run run by (simp add: tr)
  moreover have "n < length ?perms" using n by (simp add: length_recorded)
  ultimately show ?thesis by blast
qed

lemma test_correctness_result:
  "fst (test_correctness heap actions vs p w) =
     Inr (case first_fault vs (recorded heap p (permutations_of actions) w) of
            Some e \<Rightarrow> ErrorValue e
          | None \<Rightarrow>
              if failures_of heap vs (recorded heap p (permutations_of actions) w) = []
              then Verdict True None
              else Verdict False
                     (Some (join ''\<newline>'' (failures_of heap vs (recorded heap p (permutations_of actions) w)))))"
proof (cases "first_fault vs (recorded heap p (permutations_of actions) w)")
  case None
  show ?thesis unfolding test_correctness_no_fault[OF None] by (simp add: None)
next
  case (Some e)
  from test_correctness_fault[OF Some] show ?thesis by (auto simp: Some)
qed

subsection \<open>The examples\<close>

lemmas ex_defs = exA_def exB_def action_def ex_heap_def ex_pattern_def

lemmas run_defs = visited_def forEach_def observed_def world_after_def invoke_def tracked_def
  late_calls_def is_valid_sequence_def sequence_fits_pattern_def action_fits_pattern_def

lemma ex_recorded:
  "recorded ex_heap ex_pattern (visited [exA, exB]) 0 =
     [([\<lparr>name = ''A'', outcome = 0\<rparr>, \<lparr>name = ''B'', outcome = 0\<rparr>],
       [\<lparr>name = ''A'', outcome = 0\<rparr>, \<lparr>name = ''B'', outcome = 0\<rparr>]),
      ([\<lparr>name = ''A'', outcome = 1\<rparr>, \<lparr>name = ''B'', outcome = 0\<rparr>],
       [\<lparr>name = ''A'', outcome = 1\<rparr>])]"
  by (simp add: ex_defs run_defs)

lemma ex_visited:
  "visited [exA, exB] =
     [[\<lparr>name = ''A'', outcome = 0\<rparr>, \<lparr>name = ''B'', outcome = 0\<rparr>],
      [\<lparr>name = ''A'', outcome = 1\<rparr>, \<lparr>name = ''B'', outcome = 0\<rparr>]]"
  by (simp add: ex_defs run_defs)

lemma ex_no_fault:
  "first_fault ex_templates (recorded ex_heap ex_pattern (visited [exA, exB]) 0) = None"
  unfolding ex_recorded by (simp add: ex_defs run_defs ex_templates_def)

lemma ex_ok_no_fault:
  "first_fault ex_templates_ok (recorded ex_heap ex_pattern (visited [exA, exB]) 0) = None"
  unfolding ex_recorded by (simp add: ex_defs run_defs ex_templates_ok_def)

lemma ex_async_recorded:
  "recorded ex_heap ex_async_pattern (visited [exA, exB]) 0 =
     [([\<lparr>name = ''A'', outcome = 0\<rparr>, \<lparr>name = ''B'', outcome = 0\<rparr>],
       [\<lparr>name = ''A'', outcome = 0\<rparr>, \<lparr>name = ''B'', outcome = 0\<rparr>]),
      ([\<lparr>name = ''A'', outcome = 1\<rparr>, \<lparr>name = ''B'', outcome = 0\<rparr>],
       [\<lparr>name = ''A'', outcome = 1\<rparr>])]"
  by (simp add: ex_defs run_defs ex_async_pattern_def)

lemma ex_async_no_fault:
  "first_fault ex_templates_ok (recorded ex_heap ex_async_pattern (visited [exA, exB]) 0) = None"
  unfolding ex_async_recorded by (simp add: ex_defs run_defs ex_templates_ok_def)

lemma ex_fault:
  "first_fault ex_templates_bad (recorded ex_heap ex_pattern (visited [exA, exB]) 0) = Some TypeError"
  unfolding ex_recorded by (simp add: ex_defs run_defs ex_templates_bad_def)





section \<open>Claims\<close>

text \<open>
  C1. For actions with outcome counts \<open>c\<^sub>1 \<dots> c\<^sub>N\<close> the callback of \<open>all_permutations\<close> is
  called once per element of the Cartesian product of the outcome choices, that is
  \<open>c\<^sub>1 * \<dots> * c\<^sub>N\<close> times: never when some action has no outcome, exactly once with
  the empty permutation when there is no action. Every permutation has length \<open>N\<close> and
  lists the actions in input order. The \<open>k\<close>-th permutation visited chooses for action
  \<open>i\<close> the outcome whose index is the \<open>i\<close>-th digit of \<open>k\<close> in the mixed radix
  \<open>c\<^sub>1 \<dots> c\<^sub>N\<close>, so the outcome of the last action varies fastest.
\<close>

theorem all_permutations_cartesian:
  "all_permutations actions callback s = fold callback (visited actions) s
   \<and> visited actions =
       product_lists (map (\<lambda>a. map (\<lambda>outcome. \<lparr>name = name a, outcome = outcome\<rparr>) (outcomes a)) actions)
   \<and> length (visited actions) = prod_list (map (\<lambda>a. length (outcomes a)) actions)
   \<and> ((\<exists>a \<in> set actions. outcomes a = []) \<longrightarrow> visited actions = [])
   \<and> visited [] = [[]]
   \<and> (\<forall>p \<in> set (visited actions). length p = length actions \<and> map name p = map name actions)
   \<and> (\<forall>k < length (visited actions). \<forall>i < length actions.
        visited actions ! k ! i =
          \<lparr>name = name (actions ! i),
           outcome = outcomes (actions ! i) !
             ((k div prod_list (map (\<lambda>a. length (outcomes a)) (drop (Suc i) actions)))
                mod length (outcomes (actions ! i)))\<rparr>)"
proof -
  have len: "length (visited actions) = prod_list (map (\<lambda>a. length (outcomes a)) actions)"
    by (simp add: visited_eq permutations_of_def length_product_lists_prod comp_def choices_def)
  have zero: "(\<exists>a \<in> set actions. outcomes a = []) \<longrightarrow> visited actions = []"
  proof
    assume "\<exists>a \<in> set actions. outcomes a = []"
    then have "0 \<in> set (map (\<lambda>a. length (outcomes a)) actions)" by force
    then have "prod_list (map (\<lambda>a. length (outcomes a)) actions) = 0"
      by (simp only: prod_list_zero_iff)
    with len show "visited actions = []" by simp
  qed
  have shape: "\<forall>p \<in> set (visited actions). length p = length actions \<and> map name p = map name actions"
  proof
    fix p assume "p \<in> set (visited actions)"
    then have p: "p \<in> set (permutations_of actions)" by (simp add: visited_eq)
    then have "length p = length (map choices actions)"
      unfolding permutations_of_def by (rule in_set_product_lists_length)
    with p show "length p = length actions \<and> map name p = map name actions"
      by (simp add: permutations_of_names)
  qed
  have order: "\<forall>k < length (visited actions). \<forall>i < length actions.
        visited actions ! k ! i =
          \<lparr>name = name (actions ! i),
           outcome = outcomes (actions ! i) !
             ((k div prod_list (map (\<lambda>a. length (outcomes a)) (drop (Suc i) actions)))
                mod length (outcomes (actions ! i)))\<rparr>"
  proof (intro allI impI)
    fix k i assume k: "k < length (visited actions)" and i: "i < length actions"
    let ?c = "length (outcomes (actions ! i))"
    let ?j = "(k div prod_list (map (\<lambda>a. length (outcomes a)) (drop (Suc i) actions))) mod ?c"
    have "0 < prod_list (map (\<lambda>a. length (outcomes a)) actions)" using k len by simp
    then have "0 \<notin> set (map (\<lambda>a. length (outcomes a)) actions)"
      using prod_list_zero_iff[of "map (\<lambda>a. length (outcomes a)) actions"] by simp
    moreover have "?c \<in> set (map (\<lambda>a. length (outcomes a)) actions)"
      using i by simp
    ultimately have c: "0 < ?c" by (cases ?c) simp_all
    then have jlt: "?j < ?c" by simp
    have "visited actions ! k ! i = (map choices actions ! i) !
            ((k div prod_list (map length (drop (Suc i) (map choices actions))))
               mod length (map choices actions ! i))"
      unfolding visited_eq permutations_of_def
      by (rule product_lists_nth) (use k i in \<open>simp_all add: visited_eq permutations_of_def\<close>)
    also have "\<dots> = choices (actions ! i) ! ?j"
      using i by (simp add: drop_map comp_def choices_def)
    also have "\<dots> = \<lparr>name = name (actions ! i), outcome = outcomes (actions ! i) ! ?j\<rparr>"
      using jlt by (simp add: choices_def)
    finally show "visited actions ! k ! i = \<lparr>name = name (actions ! i), outcome = outcomes (actions ! i) ! ?j\<rparr>" .
  qed
  have "all_permutations actions callback s = fold callback (visited actions) s"
    by (simp add: all_permutations_fold visited_eq)
  moreover have "visited [] = [[]]" by (simp add: visited_def)
  moreover have "visited actions =
       product_lists (map (\<lambda>a. map (\<lambda>outcome. \<lparr>name = name a, outcome = outcome\<rparr>) (outcomes a)) actions)"
    by (simp add: visited_eq permutations_of_def choices_def[abs_def])
  ultimately show ?thesis using len zero shape order by blast
qed

theorem all_permutations_cartesian_witness:
  "visited [exA, exB] =
     [[\<lparr>name = ''A'', outcome = 0\<rparr>, \<lparr>name = ''B'', outcome = 0\<rparr>],
      [\<lparr>name = ''A'', outcome = 1\<rparr>, \<lparr>name = ''B'', outcome = 0\<rparr>]]
   \<and> length (visited [exA, exB]) = 2
   \<and> visited [exA, exB] ! 1 ! 0 = \<lparr>name = ''A'', outcome = 1\<rparr>
   \<and> (\<exists>a \<in> set [exA, exZ, exB]. outcomes a = []) \<and> visited [exA, exZ, exB] = []"
proof -
  have v: "visited [exA, exB] =
     [[\<lparr>name = ''A'', outcome = 0\<rparr>, \<lparr>name = ''B'', outcome = 0\<rparr>],
      [\<lparr>name = ''A'', outcome = 1\<rparr>, \<lparr>name = ''B'', outcome = 0\<rparr>]]"
    by (simp add: visited_def exA_def exB_def action_def forEach_def)
  have z: "\<exists>a \<in> set [exA, exZ, exB]. outcomes a = []"
    by (simp add: exZ_def action_def)
  note t1 = all_permutations_cartesian[of "[exA, exB]" "\<lambda>p acc. acc @ [p]" "[]"]
  note t2 = all_permutations_cartesian[of "[exA, exZ, exB]" "\<lambda>p acc. acc @ [p]" "[]"]
  have l: "length (visited [exA, exB]) = 2"
    using t1 by (simp add: exA_def exB_def action_def)
  have k: "1 < length (visited [exA, exB])" using l by simp
  have "visited [exA, exB] ! 1 ! 0 = \<lparr>name = ''A'', outcome = 1\<rparr>"
    using t1 k by (simp add: exA_def exB_def action_def)
  moreover have "visited [exA, exZ, exB] = []" using t2 z by blast
  ultimately show ?thesis using v z l by blast
qed

text \<open>
  C2. For well-formed valid sequences, \<open>is_valid_sequence\<close> returns true if and only if
  some template has the length of the recorded sequence and, at every position, its entry
  names the action recorded there and either has length 1 or lists the recorded outcome
  among its elements from index 1 on. Positions are compared one to one, so there is no
  reordering, skipping or acceptance of a prefix.
\<close>

theorem is_valid_sequence_iff:
  assumes "well_formed Ts"
  shows "is_valid_sequence S Ts =
     Inr (\<exists>T \<in> set Ts. length S = length T \<and>
            (\<forall>i < length S.
               case T ! i of
                 NoElements \<Rightarrow> False
               | Elements a os \<Rightarrow>
                   name (S ! i) = name a \<and>
                   (va_length (T ! i) = 1 \<or> outcome (S ! i) \<in> set os)))"
proof -
  have "matches S T = (length S = length T \<and>
            (\<forall>i < length S.
               case T ! i of
                 NoElements \<Rightarrow> False
               | Elements a os \<Rightarrow>
                   name (S ! i) = name a \<and>
                   (va_length (T ! i) = 1 \<or> outcome (S ! i) \<in> set os)))" for T
  proof -
    have "entry_matches t va =
            (case va of
               NoElements \<Rightarrow> False
             | Elements a os \<Rightarrow> name t = name a \<and> (va_length va = 1 \<or> outcome t \<in> set os))"
      for t va
      by (cases va) (simp_all add: entry_matches_def)
    then show ?thesis
      unfolding matches_def by (simp add: list_all_iff Ball_def)
  qed
  then show ?thesis
    using valid_loop_matches[OF assms, of S False] by (simp add: is_valid_sequence_def)
qed

theorem is_valid_sequence_iff_witness:
  "well_formed [[Elements exA [0], Elements exB []], [Elements exA [1]]]
   \<and> is_valid_sequence [\<lparr>name = ''A'', outcome = 1\<rparr>]
         [[Elements exA [0], Elements exB []], [Elements exA [1]]] = Inr True
   \<and> is_valid_sequence [\<lparr>name = ''A'', outcome = 0\<rparr>]
         [[Elements exA [0], Elements exB []], [Elements exA [1]]] = Inr False"
proof -
  have wf: "well_formed [[Elements exA [0], Elements exB []], [Elements exA [1]]]"
    by (simp add: well_formed_def)
  show ?thesis
    using wf is_valid_sequence_iff[OF wf, of "[\<lparr>name = ''A'', outcome = 1\<rparr>]"]
      is_valid_sequence_iff[OF wf, of "[\<lparr>name = ''A'', outcome = 0\<rparr>]"]
    by (simp add: exA_def action_def)
qed



text \<open>
  C4, as the code has it. The pattern is invoked for every scenario, in enumeration order,
  while \<open>all_permutations\<close> runs; the validation callbacks run after all these
  invocations, in enumeration order, up to and including the first one that throws, and
  all of them when none throws.
\<close>

theorem enumeration_then_validation:
  "(\<exists>n \<le> length (visited actions).
      trace (snd (test_correctness heap actions valid_sequences pattern_to_test w)) =
        map Invoked (visited actions) @ map Validated (take n (visited actions)))
   \<and> (first_fault valid_sequences (recorded heap pattern_to_test (visited actions) w) = None \<longrightarrow>
        trace (snd (test_correctness heap actions valid_sequences pattern_to_test w)) =
          map Invoked (visited actions) @ map Validated (visited actions))"
proof (intro conjI impI)
  show "\<exists>n \<le> length (visited actions).
      trace (snd (test_correctness heap actions valid_sequences pattern_to_test w)) =
        map Invoked (visited actions) @ map Validated (take n (visited actions))"
  proof (cases "first_fault valid_sequences (recorded heap pattern_to_test (permutations_of actions) w)")
    case None
    have "trace (snd (test_correctness heap actions valid_sequences pattern_to_test w)) =
        map Invoked (visited actions) @ map Validated (take (length (visited actions)) (visited actions))"
      unfolding test_correctness_no_fault[OF None] by (simp add: visited_eq)
    then show ?thesis by blast
  next
    case (Some e)
    from test_correctness_fault[OF Some] obtain n where
      n: "n < length (permutations_of actions)" and
      "trace (snd (test_correctness heap actions valid_sequences pattern_to_test w)) =
        map Invoked (permutations_of actions) @ map Validated (take (Suc n) (permutations_of actions))"
      by auto
    then have "Suc n \<le> length (visited actions) \<and>
      trace (snd (test_correctness heap actions valid_sequences pattern_to_test w)) =
        map Invoked (visited actions) @ map Validated (take (Suc n) (visited actions))"
      by (simp add: visited_eq)
    then show ?thesis by blast
  qed
next
  assume "first_fault valid_sequences (recorded heap pattern_to_test (visited actions) w) = None"
  then have f: "first_fault valid_sequences (recorded heap pattern_to_test (permutations_of actions) w) = None"
    by (simp add: visited_eq)
  show "trace (snd (test_correctness heap actions valid_sequences pattern_to_test w)) =
          map Invoked (visited actions) @ map Validated (visited actions)"
    unfolding test_correctness_no_fault[OF f] by (simp add: visited_eq)
qed

theorem enumeration_then_validation_witness:
  "first_fault ex_templates_ok (recorded ex_heap ex_pattern (visited [exA, exB]) 0) = None
   \<and> trace (snd (test_correctness ex_heap [exA, exB] ex_templates_ok ex_pattern 0)) =
       [Invoked [\<lparr>name = ''A'', outcome = 0\<rparr>, \<lparr>name = ''B'', outcome = 0\<rparr>],
        Invoked [\<lparr>name = ''A'', outcome = 1\<rparr>, \<lparr>name = ''B'', outcome = 0\<rparr>],
        Validated [\<lparr>name = ''A'', outcome = 0\<rparr>, \<lparr>name = ''B'', outcome = 0\<rparr>],
        Validated [\<lparr>name = ''A'', outcome = 1\<rparr>, \<lparr>name = ''B'', outcome = 0\<rparr>]]"
  using enumeration_then_validation[of "[exA, exB]" ex_heap ex_templates_ok ex_pattern 0] ex_ok_no_fault
  by (simp add: ex_visited)

text \<open>
  C4, as the specification states it, fails: with the two scenarios of actions \<open>A\<close> and
  \<open>B\<close> the second invocation of the pattern comes before the first validation.
\<close>

theorem one_scenario_at_a_time_counterexample:
  "\<not> one_scenario_at_a_time (trace (snd (test_correctness ex_heap [exA, exB] ex_templates_ok ex_pattern 0)))"
proof -
  have "trace (snd (test_correctness ex_heap [exA, exB] ex_templates_ok ex_pattern 0)) =
       [Invoked [\<lparr>name = ''A'', outcome = 0\<rparr>, \<lparr>name = ''B'', outcome = 0\<rparr>],
        Invoked [\<lparr>name = ''A'', outcome = 1\<rparr>, \<lparr>name = ''B'', outcome = 0\<rparr>],
        Validated [\<lparr>name = ''A'', outcome = 0\<rparr>, \<lparr>name = ''B'', outcome = 0\<rparr>],
        Validated [\<lparr>name = ''A'', outcome = 1\<rparr>, \<lparr>name = ''B'', outcome = 0\<rparr>]]"
    unfolding test_correctness_no_fault[OF ex_ok_no_fault[unfolded visited_eq]]
    by (simp add: ex_visited[unfolded visited_eq])
  then show ?thesis by simp
qed



text \<open>
  C6. When no validation callback throws, \<open>test_correctness\<close> resolves to
  \<open>{passed: true}\<close> if no scenario was rejected, and otherwise to \<open>{passed: false,
  description}\<close>, the description being the messages of the rejected scenarios in
  enumeration order joined by newlines. A message lists action name and outcome name for
  every element of the permutation, one per line, and the names of the actions called, in
  call order, separated by commas.
\<close>

theorem result_aggregation:
  assumes "first_fault valid_sequences (recorded heap pattern_to_test (visited actions) w) = None"
  shows "test_correctness heap actions valid_sequences pattern_to_test w =
     (let fs =
        map (\<lambda>(permutation, sequence).
               ''Pattern failed validation\<newline>  Scenario: '' @
               join ''\<newline>            ''
                 (map (\<lambda>p. name p @ '' -> '' @ fname (heap (outcome p))) permutation) @
               ''\<newline>  Sequence: '' @ join '', '' (map name sequence))
          (filter (\<lambda>(permutation, sequence).
                     is_valid_sequence sequence valid_sequences = Inr False)
             (recorded heap pattern_to_test (visited actions) w))
      in (Inr (if fs = [] then Verdict True None
               else Verdict False (Some (join ''\<newline>'' fs))),
          \<lparr>failures = fs, console = [],
           world = final_world heap pattern_to_test (visited actions) w,
           trace = map Invoked (visited actions) @ map Validated (visited actions)\<rparr>))"
  using test_correctness_no_fault[OF assms[unfolded visited_eq]]
  by (simp add: visited_eq failures_of_eq Let_def)

theorem result_aggregation_witness:
  "first_fault ex_templates (recorded ex_heap ex_pattern (visited [exA, exB]) 0) = None
   \<and> fst (test_correctness ex_heap [exA, exB] ex_templates ex_pattern 0) =
       Inr (Verdict False (Some
         ''Pattern failed validation\<newline>  Scenario: A -> fail\<newline>            B -> ok\<newline>  Sequence: A''))
   \<and> fst (test_correctness ex_heap [exA, exB] ex_templates_ok ex_pattern 0) = Inr (Verdict True None)
   \<and> fst (test_correctness ex_heap [exA, exB] ex_templates_ok ex_async_pattern 0) = Inr (Verdict True None)"
proof -
  have a: "fst (test_correctness ex_heap [exA, exB] ex_templates ex_pattern 0) =
       Inr (Verdict False (Some
         ''Pattern failed validation\<newline>  Scenario: A -> fail\<newline>            B -> ok\<newline>  Sequence: A''))"
    unfolding result_aggregation[OF ex_no_fault] ex_recorded
    by (simp add: ex_defs run_defs ex_templates_def)
  have b: "fst (test_correctness ex_heap [exA, exB] ex_templates_ok ex_pattern 0) = Inr (Verdict True None)"
    unfolding result_aggregation[OF ex_ok_no_fault] ex_recorded
    by (simp add: ex_defs run_defs ex_templates_ok_def)
  have c: "fst (test_correctness ex_heap [exA, exB] ex_templates_ok ex_async_pattern 0) = Inr (Verdict True None)"
    unfolding result_aggregation[OF ex_async_no_fault] ex_async_recorded
    by (simp add: ex_defs run_defs ex_templates_ok_def)
  show ?thesis using a b c ex_no_fault by blast
qed

text \<open>
  C7. The promise returned by \<open>test_correctness\<close> is always fulfilled. When a validation
  callback throws, it is fulfilled with the error thrown, which is also written to the
  console.
\<close>

theorem engine_fault_resolves:
  "(\<exists>r. fst (test_correctness heap actions valid_sequences pattern_to_test w) = Inr r)
   \<and> (first_fault valid_sequences (recorded heap pattern_to_test (visited actions) w) = Some e \<longrightarrow>
        fst (test_correctness heap actions valid_sequences pattern_to_test w) = Inr (ErrorValue e)
        \<and> console (snd (test_correctness heap actions valid_sequences pattern_to_test w)) = [e])"
proof (intro conjI impI)
  show "\<exists>r. fst (test_correctness heap actions valid_sequences pattern_to_test w) = Inr r"
  proof (cases "first_fault valid_sequences (recorded heap pattern_to_test (permutations_of actions) w)")
    case None
    show ?thesis unfolding test_correctness_no_fault[OF None] by simp
  next
    case (Some e')
    from test_correctness_fault[OF Some] show ?thesis by auto
  qed
next
  assume "first_fault valid_sequences (recorded heap pattern_to_test (visited actions) w) = Some e"
  then have f: "first_fault valid_sequences (recorded heap pattern_to_test (permutations_of actions) w) = Some e"
    by (simp add: visited_eq)
  from test_correctness_fault[OF f]
  show "fst (test_correctness heap actions valid_sequences pattern_to_test w) = Inr (ErrorValue e)"
    and "console (snd (test_correctness heap actions valid_sequences pattern_to_test w)) = [e]"
    by auto
qed

theorem engine_fault_resolves_witness:
  "first_fault ex_templates_bad (recorded ex_heap ex_pattern (visited [exA, exB]) 0) = Some TypeError
   \<and> fst (test_correctness ex_heap [exA, exB] ex_templates_bad ex_pattern 0) = Inr (ErrorValue TypeError)
   \<and> console (snd (test_correctness ex_heap [exA, exB] ex_templates_bad ex_pattern 0)) = [TypeError]"
  using engine_fault_resolves[of ex_heap "[exA, exB]" ex_templates_bad ex_pattern 0 TypeError] ex_fault
  by blast

text \<open>
  C8. When some action has no outcome there is no permutation: the pattern is never
  invoked (no event is logged and the world is left as it was) and \<open>test_correctness\<close>
  resolves to \<open>{passed: true}\<close>.
\<close>

theorem zero_outcomes_passes:
  assumes "\<exists>a \<in> set actions. outcomes a = []"
  shows "visited actions = []
   \<and> test_correctness heap actions valid_sequences pattern_to_test w =
       (Inr (Verdict True None), \<lparr>failures = [], console = [], world = w, trace = []\<rparr>)"
proof -
  have v: "visited actions = []" using assms by (rule visited_empty)
  then have p: "permutations_of actions = []" by (simp add: visited_eq)
  have "first_fault valid_sequences (recorded heap pattern_to_test (permutations_of actions) w) = None"
    by (simp add: p)
  from test_correctness_no_fault[OF this] v show ?thesis
    by (simp add: p failures_of_def)
qed

theorem zero_outcomes_passes_witness:
  "(\<exists>a \<in> set [exA, exZ, exB]. outcomes a = [])
   \<and> visited [exA, exZ, exB] = []
   \<and> test_correctness ex_heap [exA, exZ, exB] ex_templates ex_pattern 0 =
       (Inr (Verdict True None), \<lparr>failures = [], console = [], world = 0, trace = []\<rparr>)"
proof -
  have z: "\<exists>a \<in> set [exA, exZ, exB]. outcomes a = []" by (simp add: ex_defs exZ_def)
  from zero_outcomes_passes[OF z, of ex_heap ex_templates ex_pattern 0] z show ?thesis by blast
qed




text \<open>
  C10. With an empty list of valid sequences no sequence is valid, the empty one
  included, and \<open>test_correctness\<close> resolves to \<open>{passed: false}\<close> for every pattern as
  soon as every action has an outcome.
\<close>

theorem no_templates_fails:
  "is_valid_sequence sequence [] = Inr False
   \<and> ((\<forall>a \<in> set actions. outcomes a \<noteq> []) \<longrightarrow>
        (\<exists>d. fst (test_correctness heap actions [] pattern_to_test w) = Inr (Verdict False (Some d))))"
proof (intro conjI impI)
  show "is_valid_sequence sequence [] = Inr False" by (simp add: is_valid_sequence_def)
next
  assume "\<forall>a \<in> set actions. outcomes a \<noteq> []"
  then have "permutations_of actions \<noteq> []"
    using visited_nonempty by (simp add: visited_eq)
  then have "recorded heap pattern_to_test (permutations_of actions) w \<noteq> []"
    by (cases "permutations_of actions") simp_all
  then have "failures_of heap [] (recorded heap pattern_to_test (permutations_of actions) w) \<noteq> []"
    by (simp add: failures_of_def rejected_no_templates)
  then show "\<exists>d. fst (test_correctness heap actions [] pattern_to_test w) = Inr (Verdict False (Some d))"
    by (simp add: test_correctness_result first_fault_no_templates)
qed

theorem no_templates_fails_witness:
  "outcomes exA \<noteq> [] \<and> outcomes exB \<noteq> []
   \<and> is_valid_sequence [] [] = Inr False
   \<and> (\<exists>d. fst (test_correctness ex_heap [exA, exB] [] ex_pattern 0) = Inr (Verdict False (Some d)))"
proof -
  have n: "\<forall>a \<in> set [exA, exB]. outcomes a \<noteq> []" by (simp add: ex_defs)
  from no_templates_fails[of "[]" "[exA, exB]" ex_heap ex_pattern 0] n show ?thesis by simp
qed

end
